theory Spec2Isabelle
  imports Main
begin

section \<open>Python values of the notebook\<close>

text \<open>
  A Python \<open>str\<close> is a sequence of Unicode code points; a code point is modelled by its
  number. \<open>str_of\<close> turns an (ASCII) literal of the source into such a sequence.
\<close>

type_synonym pystr = "nat list"

definition str_of :: "string \<Rightarrow> pystr" where
  "str_of s = map of_char s"

text \<open>
  \<open>str.isspace()\<close> of CPython 3 for one code point: U+0009..U+000D, U+001C..U+0020,
  U+0085, U+00A0, U+1680, U+2000..U+200A, U+2028, U+2029, U+202F, U+205F, U+3000.
  \<open>str.split()\<close> and \<open>str.strip()\<close> without argument use this set.
\<close>

definition isspace :: "nat \<Rightarrow> bool" where
  "isspace c \<longleftrightarrow>
     (9 \<le> c \<and> c \<le> 13) \<or> (28 \<le> c \<and> c \<le> 32) \<or> c = 133 \<or> c = 160 \<or> c = 5760 \<or>
     (8192 \<le> c \<and> c \<le> 8202) \<or> c = 8232 \<or> c = 8233 \<or> c = 8239 \<or> c = 8287 \<or>
     c = 12288"

text \<open>The exceptions that the modelled code can raise.\<close>

datatype py_error =
    KeyError | IndexError | TypeError | AttributeError | ValueError
  | JSONDecodeError | RequestException | FileNotFoundError

text \<open>
  What \<open>r.json()\<close> returns: \<open>None\<close>, a bool, an int, a float (mantissa and exponent),
  a str, a list, or a dict whose keys are strs. The dict is an association list read
  with \<open>map_of\<close>.
\<close>

datatype json =
    JNull
  | JBool bool
  | JInt int
  | JFloat int int
  | JStr pystr
  | JList "json list"
  | JDict "(pystr \<times> json) list"

text \<open>The two kinds of subscript the source writes: \<open>x['name']\<close> and \<open>x[0]\<close>.\<close>

datatype subscript = SKey pystr | SIndex int

text \<open>
  The position that an int index denotes in a sequence of \<open>len\<close> elements: \<open>-1\<close> is the
  last element, and an index outside \<open>-len .. len - 1\<close> denotes none.
\<close>

definition position :: "nat \<Rightarrow> int \<Rightarrow> nat option" where
  "position len i =
     (if 0 \<le> i \<and> i < int len then Some (nat i)
      else if i < 0 \<and> - int len \<le> i then Some (nat (int len + i))
      else None)"

text \<open>
  \<open>x[k]\<close>. A dict raises KeyError for an absent key (an int is never equal to a str key);
  a list or a str takes an int index and raises IndexError when it denotes no position,
  and TypeError for a str subscript; \<open>None\<close>, bools and numbers are not subscriptable
  (TypeError).
\<close>

fun getitem :: "json \<Rightarrow> subscript \<Rightarrow> py_error + json" where
  "getitem (JDict kvs) (SKey k) =
     (case map_of kvs k of None \<Rightarrow> Inl KeyError | Some v \<Rightarrow> Inr v)"
| "getitem (JDict kvs) (SIndex i) = Inl KeyError"
| "getitem (JList xs) (SIndex i) =
     (case position (length xs) i of None \<Rightarrow> Inl IndexError | Some j \<Rightarrow> Inr (xs ! j))"
| "getitem (JList xs) (SKey k) = Inl TypeError"
| "getitem (JStr s) (SIndex i) =
     (case position (length s) i of None \<Rightarrow> Inl IndexError | Some j \<Rightarrow> Inr (JStr [s ! j]))"
| "getitem (JStr s) (SKey k) = Inl TypeError"
| "getitem JNull _ = Inl TypeError"
| "getitem (JBool _) _ = Inl TypeError"
| "getitem (JInt _) _ = Inl TypeError"
| "getitem (JFloat _ _) _ = Inl TypeError"

text \<open>
  \<open>s.split()\<close> without argument: runs of whitespace separate the tokens, leading and
  trailing whitespace gives no empty token. The scan keeps the token being read in
  \<open>cur\<close> (reversed).
\<close>

fun split_scan :: "pystr \<Rightarrow> pystr \<Rightarrow> pystr list" where
  "split_scan cur [] = (if cur = [] then [] else [rev cur])"
| "split_scan cur (c # cs) =
     (if isspace c then (if cur = [] then split_scan [] cs else rev cur # split_scan [] cs)
      else split_scan (c # cur) cs)"

definition str_split :: "pystr \<Rightarrow> pystr list" where
  "str_split s = split_scan [] s"

text \<open>\<open>x.split()\<close> on a value: only a str has the method (AttributeError otherwise).\<close>

fun split_method :: "json \<Rightarrow> py_error + pystr list" where
  "split_method (JStr s) = Inr (str_split s)"
| "split_method _ = Inl AttributeError"

text \<open>\<open>s.strip()\<close> without argument.\<close>

definition str_strip :: "pystr \<Rightarrow> pystr" where
  "str_strip s = rev (dropWhile isspace (rev (dropWhile isspace s)))"

section \<open>The HTTP boundary\<close>

text \<open>
  A response is kept by what \<open>r.json()\<close> makes of its body: the parsed value, or nothing
  when the body is not JSON. The remote side is a fixed assignment of outcomes to URLs;
  the state of the world is the list of URLs requested so far.
\<close>

datatype response = Response "json option"

type_synonym net = "pystr \<Rightarrow> py_error + response"

type_synonym log = "pystr list"

definition requests_get :: "net \<Rightarrow> pystr \<Rightarrow> log \<Rightarrow> (py_error + response) \<times> log" where
  "requests_get srv u lg = (srv u, lg @ [u])"

fun response_json :: "response \<Rightarrow> py_error + json" where
  "response_json (Response None) = Inl JSONDecodeError"
| "response_json (Response (Some d)) = Inr d"

section \<open>The notebook's functions\<close>

definition url :: pystr where
  "url = str_of ''https://www.googleapis.com/books/v1/volumes?q=isbn:''"

text \<open>\<open>data['items'][0]['volumeInfo']['description']\<close>, left to right.\<close>

definition description_of :: "json \<Rightarrow> py_error + json" where
  "description_of data =
     (case getitem data (SKey (str_of ''items'')) of
        Inl e \<Rightarrow> Inl e
      | Inr items \<Rightarrow>
          (case getitem items (SIndex 0) of
             Inl e \<Rightarrow> Inl e
           | Inr item \<Rightarrow>
               (case getitem item (SKey (str_of ''volumeInfo'')) of
                  Inl e \<Rightarrow> Inl e
                | Inr info \<Rightarrow> getitem info (SKey (str_of ''description'')))))"

text \<open>
  The body of the \<open>try\<close>: the lookup, then \<open>len(description.split())\<close>.
\<close>

definition try_wc :: "json \<Rightarrow> py_error + int" where
  "try_wc data =
     (case description_of data of
        Inl e \<Rightarrow> Inl e
      | Inr description \<Rightarrow>
          (case split_method description of
             Inl e \<Rightarrow> Inl e
           | Inr toks \<Rightarrow> Inr (int (length toks))))"

text \<open>
  \<open>get_desc_wc_parallel(isbn)\<close>: \<open>wc = 0\<close>, the request and \<open>r.json()\<close> outside the
  \<open>try\<close>, and \<open>except KeyError: pass\<close>, which leaves \<open>wc\<close> at 0. Any other exception
  leaves the function.
\<close>

definition get_desc_wc_parallel :: "net \<Rightarrow> pystr \<Rightarrow> log \<Rightarrow> (py_error + int) \<times> log" where
  "get_desc_wc_parallel srv isbn lg =
     (let wc = 0 in
      case requests_get srv (url @ isbn) lg of
        (Inl e, lg') \<Rightarrow> (Inl e, lg')
      | (Inr r, lg') \<Rightarrow>
          (case response_json r of
             Inl e \<Rightarrow> (Inl e, lg')
           | Inr data \<Rightarrow>
               (case try_wc data of
                  Inr n \<Rightarrow> (Inr n, lg')
                | Inl KeyError \<Rightarrow> (Inr wc, lg')
                | Inl e \<Rightarrow> (Inl e, lg'))))"

text \<open>
  The \<open>for\<close> loop of \<open>get_desc_wc\<close>, with \<open>wc_list\<close> as it stands before the remaining
  ISBNs: \<open>wc_list.append(...)\<close> in the \<open>try\<close>, \<open>wc_list.append(0)\<close> under
  \<open>except KeyError\<close>.
\<close>

fun get_desc_wc_loop :: "net \<Rightarrow> pystr list \<Rightarrow> int list \<Rightarrow> log \<Rightarrow> (py_error + int list) \<times> log" where
  "get_desc_wc_loop srv [] wc_list lg = (Inr wc_list, lg)"
| "get_desc_wc_loop srv (isbn # rest) wc_list lg =
     (case requests_get srv (url @ isbn) lg of
        (Inl e, lg') \<Rightarrow> (Inl e, lg')
      | (Inr r, lg') \<Rightarrow>
          (case response_json r of
             Inl e \<Rightarrow> (Inl e, lg')
           | Inr data \<Rightarrow>
               (case try_wc data of
                  Inr n \<Rightarrow> get_desc_wc_loop srv rest (wc_list @ [n]) lg'
                | Inl KeyError \<Rightarrow> get_desc_wc_loop srv rest (wc_list @ [0]) lg'
                | Inl e \<Rightarrow> (Inl e, lg'))))"

definition get_desc_wc :: "net \<Rightarrow> pystr list \<Rightarrow> log \<Rightarrow> (py_error + int list) \<times> log" where
  "get_desc_wc srv isbn_list lg = get_desc_wc_loop srv isbn_list [] lg"

section \<open>Reading the ISBN file and batching\<close>

text \<open>
  \<open>open('isbn.txt')\<close> reads text with universal newlines: \<open>\r\n\<close> and a lone \<open>\r\<close> reach
  the program as \<open>\n\<close>. \<open>pendingcr\<close> says that the previous character was \<open>\r\<close>.
\<close>

fun universal_newlines :: "bool \<Rightarrow> pystr \<Rightarrow> pystr" where
  "universal_newlines pendingcr [] = []"
| "universal_newlines pendingcr (c # cs) =
     (if c = 13 then 10 # universal_newlines True cs
      else if c = 10 \<and> pendingcr then universal_newlines False cs
      else c # universal_newlines False cs)"

text \<open>
  Iterating over the file yields its lines, each with its closing \<open>\n\<close>; the last line
  may have none.
\<close>

fun iter_lines :: "pystr \<Rightarrow> pystr list" where
  "iter_lines [] = []"
| "iter_lines (c # cs) =
     (if c = 10 then [c] # iter_lines cs
      else (case iter_lines cs of [] \<Rightarrow> [c] # [] | l # ls \<Rightarrow> (c # l) # ls))"

definition file_lines :: "pystr \<Rightarrow> pystr list" where
  "file_lines text = iter_lines (universal_newlines False text)"

text \<open>
  \<open>with open('isbn.txt') as file: isbn_list = [isbn.strip() for isbn in file]\<close>, the
  file system being a map from names to decoded contents.
\<close>

definition load_isbn_list :: "(pystr \<Rightarrow> pystr option) \<Rightarrow> py_error + pystr list" where
  "load_isbn_list fs =
     (case fs (str_of ''isbn.txt'') of
        None \<Rightarrow> Inl FileNotFoundError
      | Some text \<Rightarrow> Inr (map str_strip (file_lines text)))"

text \<open>\<open>range(start, stop, step)\<close> as the list of its values; a zero step is a ValueError.\<close>

function range_up :: "int \<Rightarrow> int \<Rightarrow> int \<Rightarrow> int list" where
  "range_up i stop step =
     (if 0 < step \<and> i < stop then i # range_up (i + step) stop step else [])"
  by pat_completeness auto
termination
  by (relation "measure (\<lambda>(i, stop, step). nat (stop - i))") auto

function range_down :: "int \<Rightarrow> int \<Rightarrow> int \<Rightarrow> int list" where
  "range_down i stop step =
     (if step < 0 \<and> stop < i then i # range_down (i + step) stop step else [])"
  by pat_completeness auto
termination
  by (relation "measure (\<lambda>(i, stop, step). nat (i - stop))") auto

definition py_range :: "int \<Rightarrow> int \<Rightarrow> int \<Rightarrow> py_error + int list" where
  "py_range start stop step =
     (if step = 0 then Inl ValueError
      else if 0 < step then Inr (range_up start stop step)
      else Inr (range_down start stop step))"

text \<open>
  \<open>xs[lo:hi]\<close>: a negative bound counts from the end, and both bounds are clipped to
  the list.
\<close>

definition slice_bound :: "int \<Rightarrow> int \<Rightarrow> nat" where
  "slice_bound n i = nat (if i < 0 then max (i + n) 0 else min i n)"

definition py_slice :: "'a list \<Rightarrow> int \<Rightarrow> int \<Rightarrow> 'a list" where
  "py_slice xs lo hi =
     (let n = int (length xs); a = slice_bound n lo; b = slice_bound n hi
      in take (b - a) (drop a xs))"

text \<open>\<open>isbn_batches = [isbn_list[i:i + n] for i in range(0, len(isbn_list), n)]\<close>.\<close>

definition isbn_batches :: "int \<Rightarrow> pystr list \<Rightarrow> py_error + pystr list list" where
  "isbn_batches n isbn_list =
     (case py_range 0 (int (length isbn_list)) n of
        Inl e \<Rightarrow> Inl e
      | Inr starts \<Rightarrow> Inr (map (\<lambda>i. py_slice isbn_list i (i + n)) starts))"

section \<open>Notions used to state the properties\<close>

text \<open>
  The number of whitespace-separated tokens of a string, counted by where they start:
  a position holding a non-whitespace character that is the first one or follows a
  whitespace character.
\<close>

definition token_count :: "pystr \<Rightarrow> nat" where
  "token_count s =
     length (filter (\<lambda>i. \<not> isspace (s ! i) \<and> (i = 0 \<or> isspace (s ! (i - 1)))) [0..<length s])"

definition starts_after :: "nat \<Rightarrow> pystr \<Rightarrow> nat" where
  "starts_after p s =
     length (filter (\<lambda>i. \<not> isspace (s ! i) \<and> isspace ((p # s) ! i)) [0..<length s])"

text \<open>
  What both functions make of the outcome of one request: the exception of the request
  or of \<open>r.json()\<close>, the count of the \<open>try\<close> body, zero for its KeyError, and any other
  exception of the body.
\<close>

definition wc_of_response :: "py_error + response \<Rightarrow> py_error + int" where
  "wc_of_response out =
     (case out of
        Inl e \<Rightarrow> Inl e
      | Inr r \<Rightarrow>
          (case response_json r of
             Inl e \<Rightarrow> Inl e
           | Inr data \<Rightarrow>
               (case try_wc data of
                  Inr n \<Rightarrow> Inr n
                | Inl e \<Rightarrow> (if e = KeyError then Inr 0 else Inl e))))"

definition item_wc :: "net \<Rightarrow> pystr \<Rightarrow> py_error + int" where
  "item_wc srv isbn = wc_of_response (srv (url @ isbn))"

text \<open>A list of outcomes, in order: the values if all are values, else the first exception.\<close>

fun collect :: "(py_error + 'a) list \<Rightarrow> py_error + 'a list" where
  "collect [] = Inr []"
| "collect (Inl e # _) = Inl e"
| "collect (Inr n # os) = (case collect os of Inl e \<Rightarrow> Inl e | Inr ns \<Rightarrow> Inr (n # ns))"

text \<open>The ISBNs up to and including the first one whose processing raises.\<close>

definition issued :: "net \<Rightarrow> pystr list \<Rightarrow> pystr list" where
  "issued srv xs = take (Suc (length (takeWhile (\<lambda>i. \<not> isl (item_wc srv i)) xs))) xs"

text \<open>
  \<open>[get_desc_wc_parallel(isbn) for isbn in isbn_list]\<close>: the single-item function applied
  to the list element by element.
\<close>

fun map_get_desc_wc_parallel :: "net \<Rightarrow> pystr list \<Rightarrow> log \<Rightarrow> (py_error + int list) \<times> log" where
  "map_get_desc_wc_parallel srv [] lg = (Inr [], lg)"
| "map_get_desc_wc_parallel srv (isbn # rest) lg =
     (case get_desc_wc_parallel srv isbn lg of
        (Inl e, lg') \<Rightarrow> (Inl e, lg')
      | (Inr n, lg') \<Rightarrow>
          (case map_get_desc_wc_parallel srv rest lg' of
             (Inl e, lg'') \<Rightarrow> (Inl e, lg'')
           | (Inr ns, lg'') \<Rightarrow> (Inr (n # ns), lg'')))"


subsection \<open>Sample responses\<close>

text \<open>
  Four answers of the Books API: a volume with a description, a volume without, no
  \<open>items\<close> key at all, and \<open>items\<close> bound to the empty list.
\<close>

definition essays :: json where
  "essays =
     JDict [(str_of ''kind'', JStr (str_of ''books#volumes'')),
            (str_of ''totalItems'', JInt 1),
            (str_of ''items'',
             JList [JDict [(str_of ''id'', JStr (str_of ''DGALPwfF9fAC'')),
                           (str_of ''volumeInfo'',
                            JDict [(str_of ''title'', JStr (str_of ''Essays'')),
                                   (str_of ''description'', JStr (str_of ''An anthology of  essays'')),
                                   (str_of ''pageCount'', JInt 596)])]])]"

definition untold :: json where
  "untold =
     JDict [(str_of ''kind'', JStr (str_of ''books#volumes'')),
            (str_of ''totalItems'', JInt 1),
            (str_of ''items'',
             JList [JDict [(str_of ''id'', JStr (str_of ''x'')),
                           (str_of ''volumeInfo'',
                            JDict [(str_of ''title'', JStr (str_of ''Untold''))])]])]"

definition no_items :: json where
  "no_items =
     JDict [(str_of ''kind'', JStr (str_of ''books#volumes'')), (str_of ''totalItems'', JInt 0)]"

definition empty_items :: json where
  "empty_items =
     JDict [(str_of ''kind'', JStr (str_of ''books#volumes'')),
            (str_of ''totalItems'', JInt 0),
            (str_of ''items'', JList [])]"

definition serve :: "(pystr \<times> json) list \<Rightarrow> net" where
  "serve table u =
     (case map_of table u of
        None \<Rightarrow> Inl RequestException
      | Some d \<Rightarrow> Inr (Response (Some d)))"

definition isbn1 :: pystr where "isbn1 = str_of ''0435910108''"
definition isbn2 :: pystr where "isbn2 = str_of ''0618155872''"
definition isbn3 :: pystr where "isbn3 = str_of ''0000000000''"
definition isbn4 :: pystr where "isbn4 = str_of ''1111111111''"

definition books :: net where
  "books = serve [(url @ isbn1, essays), (url @ isbn2, untold),
                  (url @ isbn3, no_items), (url @ isbn4, empty_items)]"

text \<open>An ISBN file of four lines: padded, ended by \<open>\r\n\<close>, empty, and without a final newline.\<close>

definition isbn_txt :: pystr where
  "isbn_txt = [32] @ isbn1 @ [13, 10] @ isbn2 @ [32, 10, 10] @ isbn4"

definition disk :: "pystr \<Rightarrow> pystr option" where
  "disk = [str_of ''isbn.txt'' \<mapsto> isbn_txt]"

section \<open>Properties of the Python operations\<close>

lemma token_count_starts: "isspace p \<Longrightarrow> token_count s = starts_after p s"
  unfolding token_count_def starts_after_def
  by (rule arg_cong [where f = length], rule filter_cong) (auto simp: nth_Cons split: nat.split)

lemma starts_after_Nil: "starts_after p [] = 0"
  by (simp add: starts_after_def)

lemma starts_after_Cons:
  "starts_after p (c # cs) = (if \<not> isspace c \<and> isspace p then 1 else 0) + starts_after c cs"
proof -
  have "[0..<length (c # cs)] = 0 # map Suc [0..<length cs]"
    by (simp add: upt_conv_Cons map_Suc_upt del: upt_Suc)
  then show ?thesis
    by (simp add: starts_after_def filter_map comp_def)
qed

lemma length_split_scan:
  "(isspace p \<longleftrightarrow> cur = []) \<Longrightarrow>
     length (split_scan cur s) = (if cur = [] then 0 else 1) + starts_after p s"
proof (induction s arbitrary: cur p)
  case Nil
  then show ?case by (simp add: starts_after_Nil)
next
  case (Cons c cs)
  show ?case
  proof (cases "isspace c")
    case True
    have "length (split_scan [] cs) = starts_after c cs"
      using Cons.IH [of c "[]"] True by simp
    with True show ?thesis by (simp add: starts_after_Cons)
  next
    case False
    have "length (split_scan (c # cur) cs) = 1 + starts_after c cs"
      using Cons.IH [of c "c # cur"] False by simp
    with False Cons.prems show ?thesis by (simp add: starts_after_Cons)
  qed
qed

lemma isspace_32: "isspace 32" by (simp add: isspace_def)

lemma length_str_split: "length (str_split s) = token_count s"
  using length_split_scan [of 32 "[]" s] token_count_starts [of 32 s]
  by (simp add: str_split_def isspace_32)

lemma concat_split_scan:
  "concat (split_scan cur s) = rev cur @ filter (\<lambda>c. \<not> isspace c) s"
  by (induction s arbitrary: cur) simp_all

lemma split_scan_token:
  "\<forall>c\<in>set cur. \<not> isspace c \<Longrightarrow> t \<in> set (split_scan cur s) \<Longrightarrow>
     t \<noteq> [] \<and> (\<forall>c\<in>set t. \<not> isspace c)"
proof (induction s arbitrary: cur)
  case Nil
  then show ?case by (auto split: if_splits)
next
  case (Cons c cs)
  show ?case
  proof (cases "isspace c")
    case True
    with Cons.prems have "t = rev cur \<and> cur \<noteq> [] \<or> t \<in> set (split_scan [] cs)"
      by (auto split: if_splits)
    then show ?thesis
    proof
      assume "t = rev cur \<and> cur \<noteq> []"
      with Cons.prems(1) show ?thesis by simp
    next
      assume "t \<in> set (split_scan [] cs)"
      with Cons.IH [of "[]"] show ?thesis by simp
    qed
  next
    case False
    with Cons.prems have "t \<in> set (split_scan (c # cur) cs)" by simp
    moreover have "\<forall>d\<in>set (c # cur). \<not> isspace d" using False Cons.prems(1) by simp
    ultimately show ?thesis by (rule Cons.IH [rotated])
  qed
qed

lemma str_split_tokens:
  "concat (str_split s) = filter (\<lambda>c. \<not> isspace c) s"
  "t \<in> set (str_split s) \<Longrightarrow> t \<noteq> [] \<and> (\<forall>c\<in>set t. \<not> isspace c)"
  using split_scan_token [of "[]" t s] by (simp_all add: str_split_def concat_split_scan)

lemma concat_iter_lines: "concat (iter_lines s) = s"
  by (induction s) (auto split: list.splits)

lemma iter_lines_nonempty: "l \<in> set (iter_lines s) \<Longrightarrow> l \<noteq> []"
  by (induction s arbitrary: l) (auto split: list.splits if_splits)

lemma iter_lines_inner: "l \<in> set (iter_lines s) \<Longrightarrow> 10 \<notin> set (butlast l)"
  by (induction s arbitrary: l) (auto split: list.splits if_splits dest: iter_lines_nonempty)

lemma iter_lines_ended: "l \<in> set (butlast (iter_lines s)) \<Longrightarrow> last l = 10"
proof (induction s arbitrary: l)
  case Nil
  then show ?case by simp
next
  case (Cons c cs)
  show ?case
  proof (cases "c = 10")
    case True
    with Cons show ?thesis by (auto split: if_splits)
  next
    case False
    show ?thesis
    proof (cases "iter_lines cs")
      case Nil
      with False Cons.prems show ?thesis by simp
    next
      case (Cons l' ls)
      have "l' \<in> set (iter_lines cs)" using Cons by simp
      then have ne: "l' \<noteq> []" by (rule iter_lines_nonempty)
      from Cons False Cons.prems have "ls \<noteq> []" by (auto split: if_splits)
      with Cons False Cons.prems have "l = c # l' \<or> l \<in> set (butlast ls)" by auto
      then show ?thesis
      proof
        assume l: "l = c # l'"
        have "l' \<in> set (butlast (iter_lines cs))" using Cons \<open>ls \<noteq> []\<close> by simp
        then have "last l' = 10" by (rule Cons.IH)
        with l ne show ?thesis by simp
      next
        assume "l \<in> set (butlast ls)"
        then have "l \<in> set (butlast (iter_lines cs))" using Cons \<open>ls \<noteq> []\<close> by simp
        then show ?thesis by (rule Cons.IH)
      qed
    qed
  qed
qed

lemma universal_newlines_no_cr: "13 \<notin> set (universal_newlines b s)"
  by (induction s arbitrary: b) auto

lemma str_strip_parts:
  "\<exists>a b. s = a @ str_strip s @ b \<and> (\<forall>c\<in>set a. isspace c) \<and> (\<forall>c\<in>set b. isspace c)"
proof -
  let ?t = "dropWhile isspace s"
  let ?a = "takeWhile isspace s"
  let ?b = "rev (takeWhile isspace (rev ?t))"
  have "rev ?t = takeWhile isspace (rev ?t) @ dropWhile isspace (rev ?t)" by simp
  then have "?t = str_strip s @ ?b"
    unfolding str_strip_def by (metis rev_append rev_rev_ident)
  then have "s = ?a @ str_strip s @ ?b"
    by (metis takeWhile_dropWhile_id)
  moreover have "\<forall>c\<in>set ?a. isspace c" by (auto dest: set_takeWhileD)
  moreover have "\<forall>c\<in>set ?b. isspace c" by (auto dest: set_takeWhileD)
  ultimately show ?thesis by blast
qed

lemma str_strip_ends:
  "str_strip s \<noteq> [] \<Longrightarrow> \<not> isspace (hd (str_strip s)) \<and> \<not> isspace (last (str_strip s))"
proof -
  assume ne: "str_strip s \<noteq> []"
  let ?t = "dropWhile isspace s"
  let ?u = "dropWhile isspace (rev ?t)"
  from ne have u: "?u \<noteq> []" by (simp add: str_strip_def)
  then have 1: "\<not> isspace (hd ?u)" by (rule hd_dropWhile)
  have last: "last (str_strip s) = hd ?u" using u by (simp add: str_strip_def last_rev)
  have t: "?t \<noteq> []"
  proof
    assume a: "?t = []"
    show False using u unfolding a by simp
  qed
  then have 2: "\<not> isspace (hd ?t)" by (rule hd_dropWhile)
  have "rev ?t = takeWhile isspace (rev ?t) @ ?u" by simp
  then have "?t = rev ?u @ rev (takeWhile isspace (rev ?t))"
    by (metis rev_append rev_rev_ident)
  then have "hd ?t = hd (rev ?u)" using u by (metis hd_append2 rev_is_Nil_conv)
  with 2 have "\<not> isspace (hd (str_strip s))" by (simp add: str_strip_def)
  with 1 last show ?thesis by simp
qed

declare range_up.simps [simp del]

lemma py_slice_chunk:
  "0 \<le> i \<Longrightarrow> 0 < n \<Longrightarrow> py_slice xs i (i + n) = take (nat n) (drop (nat i) xs)"
  by (auto simp: py_slice_def slice_bound_def Let_def min_def nat_diff_distrib nat_add_distrib)

lemma chunks_concat:
  "0 < n \<Longrightarrow> 0 \<le> i \<Longrightarrow>
     concat (map (\<lambda>j. py_slice xs j (j + n)) (range_up i (int (length xs)) n)) = drop (nat i) xs"
proof (induction i "int (length xs)" n rule: range_up.induct)
  case (1 i step)
  show ?case
  proof (cases "i < int (length xs)")
    case True
    have "drop (nat (i + step)) xs = drop (nat step) (drop (nat i) xs)"
      using 1 by (simp add: nat_add_distrib add.commute)
    then have "take (nat step) (drop (nat i) xs) @ drop (nat (i + step)) xs = drop (nat i) xs"
      by (simp only: append_take_drop_id)
    with True 1 show ?thesis
      by (subst range_up.simps) (simp add: py_slice_chunk del: drop_drop)
  next
    case False
    with 1 show ?thesis by (subst range_up.simps) simp
  qed
qed

lemma chunks_full:
  "0 < n \<Longrightarrow> 0 \<le> i \<Longrightarrow> bs = map (\<lambda>j. py_slice xs j (j + n)) (range_up i (int (length xs)) n) \<Longrightarrow>
     Suc k < length bs \<Longrightarrow> length (bs ! k) = nat n"
proof (induction i "int (length xs)" n arbitrary: bs k rule: range_up.induct)
  case (1 i step)
  let ?rest = "map (\<lambda>j. py_slice xs j (j + step)) (range_up (i + step) (int (length xs)) step)"
  from 1(5) have lt: "i < int (length xs)"
    using 1(4) by (subst (asm) range_up.simps) (auto split: if_splits)
  then have bs: "bs = py_slice xs i (i + step) # ?rest"
    using 1(2,4) by (subst (asm) range_up.simps) simp
  show ?case
  proof (cases k)
    case 0
    with 1(5) bs have "?rest \<noteq> []" by auto
    then have "i + step < int (length xs)"
      by (subst (asm) range_up.simps) (auto split: if_splits)
    with 0 bs 1(2,3) show ?thesis by (simp add: py_slice_chunk)
  next
    case (Suc k')
    with 1(5) bs have "Suc k' < length ?rest" by simp
    then have "length (?rest ! k') = nat step"
      using 1(1) [OF _ 1(2) _ refl, of k'] lt 1(2,3) by simp
    with Suc bs show ?thesis by simp
  qed
qed

lemma chunks_last:
  "0 < n \<Longrightarrow> 0 \<le> i \<Longrightarrow> bs = map (\<lambda>j. py_slice xs j (j + n)) (range_up i (int (length xs)) n) \<Longrightarrow>
     bs \<noteq> [] \<Longrightarrow> 1 \<le> length (last bs) \<and> length (last bs) \<le> nat n"
proof (induction i "int (length xs)" n arbitrary: bs rule: range_up.induct)
  case (1 i step)
  let ?rest = "map (\<lambda>j. py_slice xs j (j + step)) (range_up (i + step) (int (length xs)) step)"
  from 1(5) have lt: "i < int (length xs)"
    using 1(4) by (subst (asm) range_up.simps) (auto split: if_splits)
  then have bs: "bs = py_slice xs i (i + step) # ?rest"
    using 1(2,4) by (subst (asm) range_up.simps) simp
  show ?case
  proof (cases "?rest = []")
    case True
    with bs lt 1(2,3) show ?thesis by (auto simp: py_slice_chunk)
  next
    case False
    then have "1 \<le> length (last ?rest) \<and> length (last ?rest) \<le> nat step"
      using 1(1) [OF _ 1(2) _ refl] lt 1(2,3) by simp
    with False bs show ?thesis by simp
  qed
qed

section \<open>The two functions as outcomes of their requests\<close>

lemma parallel_eq:
  "get_desc_wc_parallel srv isbn lg = (item_wc srv isbn, lg @ [url @ isbn])"
  by (simp add: get_desc_wc_parallel_def requests_get_def wc_of_response_def item_wc_def
      split: sum.split py_error.split)

lemma loop_Cons:
  "get_desc_wc_loop srv (isbn # rest) acc lg =
     (case item_wc srv isbn of
        Inl e \<Rightarrow> (Inl e, lg @ [url @ isbn])
      | Inr n \<Rightarrow> get_desc_wc_loop srv rest (acc @ [n]) (lg @ [url @ isbn]))"
  by (simp add: requests_get_def wc_of_response_def item_wc_def split: sum.split py_error.split)

declare get_desc_wc_loop.simps(2) [simp del]

lemma issued_Nil: "issued srv [] = []"
  by (simp add: issued_def)

lemma issued_Cons:
  "issued srv (i # is) = i # (if isl (item_wc srv i) then [] else issued srv is)"
  by (simp add: issued_def)

lemma loop_collect:
  "get_desc_wc_loop srv xs acc lg =
     (map_sum id ((@) acc) (collect (map (item_wc srv) xs)), lg @ map ((@) url) (issued srv xs))"
proof (induction xs arbitrary: acc lg)
  case Nil
  show ?case by (simp add: issued_Nil)
next
  case (Cons i "is")
  show ?case
  proof (cases "item_wc srv i")
    case (Inl e)
    then show ?thesis by (simp add: loop_Cons issued_Cons)
  next
    case (Inr n)
    then show ?thesis
      by (simp add: loop_Cons issued_Cons Cons.IH split: sum.split)
  qed
qed

lemma get_desc_wc_collect:
  "get_desc_wc srv xs lg =
     (collect (map (item_wc srv) xs), lg @ map ((@) url) (issued srv xs))"
proof -
  have "map_sum id ((@) []) r = r" for r :: "py_error + int list"
    by (cases r) simp_all
  then show ?thesis by (simp add: get_desc_wc_def loop_collect)
qed

lemma map_parallel_collect:
  "map_get_desc_wc_parallel srv xs lg =
     (collect (map (item_wc srv) xs), lg @ map ((@) url) (issued srv xs))"
proof (induction xs arbitrary: lg)
  case Nil
  show ?case by (simp add: issued_Nil)
next
  case (Cons i "is")
  show ?case
    by (cases "item_wc srv i") (simp_all add: parallel_eq issued_Cons Cons.IH split: sum.split)
qed

lemma collect_Inr: "collect os = Inr ws \<longleftrightarrow> os = map Inr ws"
proof (induction os arbitrary: ws)
  case Nil
  show ?case by auto
next
  case (Cons out os)
  show ?case
  proof (cases out)
    case (Inl e)
    then show ?thesis by auto
  next
    case (Inr n)
    show ?thesis
    proof (cases "collect os")
      case (Inl e)
      with Cons.IH have "os \<noteq> map Inr vs" for vs by auto
      with Inl Inr show ?thesis by auto
    next
      case r: (Inr ns)
      have os: "os = map Inr ns" using Cons.IH [of ns] r by simp
      show ?thesis
      proof
        assume "collect (out # os) = Inr ws"
        with r Inr have "ws = n # ns" by simp
        with os Inr show "out # os = map Inr ws" by simp
      next
        assume "out # os = map Inr ws"
        then obtain w ws' where ws: "ws = w # ws'" "out = Inr w" "os = map Inr ws'"
          by (cases ws) auto
        from ws(3) Cons.IH [of ws'] have "collect os = Inr ws'" by simp
        with ws Inr show "collect (out # os) = Inr ws" by simp
      qed
    qed
  qed
qed

lemma collect_Inl:
  "collect os = Inl e \<longleftrightarrow>
     (\<exists>k<length os. os ! k = Inl e \<and> (\<forall>j<k. \<not> isl (os ! j)))"
proof (induction os rule: collect.induct)
  case 1
  show ?case by simp
next
  case (2 e' os)
  show ?case
  proof
    assume "collect (Inl e' # os) = Inl e"
    then have "(Inl e' # os) ! 0 = Inl e \<and> (\<forall>j<0. \<not> isl ((Inl e' # os) ! j))" by simp
    then show "\<exists>k<length (Inl e' # os). (Inl e' # os) ! k = Inl e \<and> (\<forall>j<k. \<not> isl ((Inl e' # os) ! j))"
      by (intro exI [of _ 0]) simp
  next
    assume "\<exists>k<length (Inl e' # os). (Inl e' # os) ! k = Inl e \<and> (\<forall>j<k. \<not> isl ((Inl e' # os) ! j))"
    then obtain k where k: "(Inl e' # os) ! k = Inl e" "\<forall>j<k. \<not> isl ((Inl e' # os) ! j)" by blast
    have "k = 0"
    proof (rule ccontr)
      assume "k \<noteq> 0"
      then have "0 < k" by simp
      with k(2) have "\<not> isl ((Inl e' # os) ! 0)" by blast
      then show False by simp
    qed
    with k(1) show "collect (Inl e' # os) = Inl e" by simp
  qed
next
  case (3 n os)
  show ?case
  proof
    assume "collect (Inr n # os) = Inl e"
    then have "collect os = Inl e" by (simp split: sum.splits)
    with 3 obtain k where k: "k < length os" "os ! k = Inl e" "\<forall>j<k. \<not> isl (os ! j)" by blast
    have "\<forall>j<Suc k. \<not> isl ((Inr n # os) ! j)"
      using k(3) by (auto simp: nth_Cons split: nat.split)
    with k(1,2) show "\<exists>k<length (Inr n # os). (Inr n # os) ! k = Inl e \<and> (\<forall>j<k. \<not> isl ((Inr n # os) ! j))"
      by (intro exI [of _ "Suc k"]) simp
  next
    assume "\<exists>k<length (Inr n # os). (Inr n # os) ! k = Inl e \<and> (\<forall>j<k. \<not> isl ((Inr n # os) ! j))"
    then obtain k where k: "k < length (Inr n # os)" "(Inr n # os) ! k = Inl e"
      "\<forall>j<k. \<not> isl ((Inr n # os) ! j)" by blast
    from k(2) obtain k' where k': "k = Suc k'" by (cases k) auto
    have "\<forall>j<k'. \<not> isl (os ! j)"
    proof (intro allI impI)
      fix j assume "j < k'"
      then have "Suc j < k" using k' by simp
      with k(3) have "\<not> isl ((Inr n # os) ! Suc j)" by blast
      then show "\<not> isl (os ! j)" by simp
    qed
    with k k' have "\<exists>k<length os. os ! k = Inl e \<and> (\<forall>j<k. \<not> isl (os ! j))"
      by (intro exI [of _ k']) simp
    with 3 have "collect os = Inl e" by simp
    then show "collect (Inr n # os) = Inl e" by simp
  qed
qed

lemma try_wc_str: "description_of data = Inr (JStr s) \<Longrightarrow> try_wc data = Inr (int (token_count s))"
  by (simp add: try_wc_def length_str_split)

lemma try_wc_raises: "description_of data = Inl e \<Longrightarrow> try_wc data = Inl e"
  by (simp add: try_wc_def)

lemma wc_of_response_nonneg: "wc_of_response out = Inr n \<Longrightarrow> 0 \<le> n"
  by (auto simp: wc_of_response_def try_wc_def split: sum.splits if_splits)


lemma collect_values_nth:
  "collect (map f xs) = Inr ws \<longleftrightarrow>
     length ws = length xs \<and> (\<forall>k<length xs. f (xs ! k) = Inr (ws ! k))"
  by (auto simp: collect_Inr list_eq_iff_nth_eq)

lemma get_desc_wc_raises:
  "fst (get_desc_wc srv xs lg) = Inl e \<longleftrightarrow>
     (\<exists>k<length xs. item_wc srv (xs ! k) = Inl e \<and> (\<forall>j<k. \<not> isl (item_wc srv (xs ! j))))"
proof -
  have "(map (item_wc srv) xs ! k = Inl e \<and> (\<forall>j<k. \<not> isl (map (item_wc srv) xs ! j))) =
        (item_wc srv (xs ! k) = Inl e \<and> (\<forall>j<k. \<not> isl (item_wc srv (xs ! j))))"
    if "k < length xs" for k
    using that by auto
  then show ?thesis
    by (simp add: get_desc_wc_collect collect_Inl cong: conj_cong)
qed


lemma split_method_Inr: "split_method v = Inr toks \<Longrightarrow> \<exists>s. v = JStr s \<and> toks = str_split s"
  by (cases v) simp_all

lemma try_wc_Inr:
  "try_wc data = Inr n \<Longrightarrow>
     \<exists>s. description_of data = Inr (JStr s) \<and> n = int (length (str_split s))"
  by (auto simp: try_wc_def split: sum.splits dest: split_method_Inr)

lemma response_json_Inr: "response_json r = Inr data \<Longrightarrow> r = Response (Some data)"
  by (cases r rule: response_json.cases) simp_all

lemma wc_of_response_Inr:
  "wc_of_response out = Inr n \<Longrightarrow>
     n = 0 \<or> (\<exists>data s. out = Inr (Response (Some data)) \<and>
                description_of data = Inr (JStr s) \<and> n = int (length (str_split s)))"
  by (auto simp: wc_of_response_def split: sum.splits if_splits
      dest!: response_json_Inr try_wc_Inr)

lemma empty_items_IndexError:
  "map_of kvs (str_of ''items'') = Some (JList []) \<Longrightarrow> try_wc (JDict kvs) = Inl IndexError"
  by (simp add: try_wc_def description_of_def position_def)

lemma item_wc_raises:
  "srv (url @ isbn) = Inr (Response (Some data)) \<Longrightarrow> try_wc data = Inl e \<Longrightarrow> e \<noteq> KeyError \<Longrightarrow>
     item_wc srv isbn = Inl e"
  by (simp add: item_wc_def wc_of_response_def)



section \<open>The sample responses, evaluated\<close>

lemma str_of_eq: "str_of a = str_of b \<longleftrightarrow> a = b"
proof -
  have "inj (of_char :: char \<Rightarrow> nat)" by (rule inj_of_char)
  then show ?thesis by (simp add: str_of_def inj_map_eq_map)
qed

lemma description_of_essays:
  "description_of essays = Inr (JStr (str_of ''An anthology of  essays''))"
  by (simp add: description_of_def essays_def str_of_eq position_def)

lemma description_of_untold: "description_of untold = Inl KeyError"
  by (simp add: description_of_def untold_def str_of_eq position_def)

lemma description_of_no_items: "description_of no_items = Inl KeyError"
  by (simp add: description_of_def no_items_def str_of_eq)

lemma description_of_empty_items: "description_of empty_items = Inl IndexError"
  by (simp add: description_of_def empty_items_def str_of_eq position_def)

lemma token_count_essays: "token_count (str_of ''An anthology of  essays'') = 4"
  by (simp add: token_count_def str_of_def isspace_def upt_rec)

lemma isbn_distinct:
  "isbn1 \<noteq> isbn2" "isbn1 \<noteq> isbn3" "isbn1 \<noteq> isbn4" "isbn2 \<noteq> isbn3" "isbn2 \<noteq> isbn4" "isbn3 \<noteq> isbn4"
  "isbn2 \<noteq> isbn1" "isbn3 \<noteq> isbn1" "isbn4 \<noteq> isbn1" "isbn3 \<noteq> isbn2" "isbn4 \<noteq> isbn2" "isbn4 \<noteq> isbn3"
  by (simp_all add: isbn1_def isbn2_def isbn3_def isbn4_def str_of_eq)

lemma books_at:
  "books (url @ isbn1) = Inr (Response (Some essays))"
  "books (url @ isbn2) = Inr (Response (Some untold))"
  "books (url @ isbn3) = Inr (Response (Some no_items))"
  "books (url @ isbn4) = Inr (Response (Some empty_items))"
  by (simp_all add: books_def serve_def isbn_distinct)

lemma item_wc_books:
  "item_wc books isbn1 = Inr 4"
  "item_wc books isbn2 = Inr 0"
  "item_wc books isbn3 = Inr 0"
  "item_wc books isbn4 = Inl IndexError"
  by (simp_all add: item_wc_def wc_of_response_def books_at
      try_wc_str [OF description_of_essays] token_count_essays
      try_wc_raises [OF description_of_untold] try_wc_raises [OF description_of_no_items]
      try_wc_raises [OF description_of_empty_items])

lemma file_lines_isbn_txt:
  "file_lines isbn_txt = [32 # isbn1 @ [10], isbn2 @ [32, 10], [10], isbn4]"
  by (simp add: file_lines_def isbn_txt_def isbn1_def isbn2_def isbn4_def str_of_def)

lemma str_strip_isbn_txt:
  "str_strip (32 # isbn1 @ [10]) = isbn1" "str_strip (isbn2 @ [32, 10]) = isbn2"
  "str_strip [10] = []" "str_strip isbn4 = isbn4"
  by (simp_all add: str_strip_def isbn1_def isbn2_def isbn4_def str_of_def isspace_def)

lemma upt_0_4: "[0..<4] = [0, 1, 2, 3]" by (simp add: upt_rec)

lemma disk_isbn_txt: "disk (str_of ''isbn.txt'') = Some isbn_txt" by (simp add: disk_def)

section \<open>What the specification says\<close>

subsection \<open>The single-item function\<close>




text \<open>
  C8. The fallback of both functions catches only KeyError: for a well-formed response,
  an exception of the \<open>try\<close> body other than KeyError leaves \<open>get_desc_wc_parallel\<close>, and
  leaves \<open>get_desc_wc\<close> at that ISBN, whatever follows in the list. In particular a JSON
  object with \<open>items\<close> bound to the empty list makes both raise IndexError instead of
  giving zero.
\<close>

theorem fallback_catches_only_KeyError:
  assumes "srv (url @ isbn) = Inr (Response (Some data))"
  shows "(\<forall>e. try_wc data = Inl e \<and> e \<noteq> KeyError \<longrightarrow>
            get_desc_wc_parallel srv isbn lg = (Inl e, lg @ [url @ isbn]) \<and>
            get_desc_wc srv (isbn # rest) lg = (Inl e, lg @ [url @ isbn])) \<and>
         (\<forall>kvs. data = JDict kvs \<and> map_of kvs (str_of ''items'') = Some (JList []) \<longrightarrow>
            get_desc_wc_parallel srv isbn lg = (Inl IndexError, lg @ [url @ isbn]) \<and>
            get_desc_wc srv (isbn # rest) lg = (Inl IndexError, lg @ [url @ isbn]))"
proof -
  have raises: "get_desc_wc_parallel srv isbn lg = (Inl e, lg @ [url @ isbn]) \<and>
            get_desc_wc srv (isbn # rest) lg = (Inl e, lg @ [url @ isbn])"
    if "try_wc data = Inl e" "e \<noteq> KeyError" for e
  proof -
    have "item_wc srv isbn = Inl e" using assms that by (rule item_wc_raises)
    then show ?thesis by (simp add: parallel_eq get_desc_wc_collect issued_Cons)
  qed
  have "get_desc_wc_parallel srv isbn lg = (Inl IndexError, lg @ [url @ isbn]) \<and>
            get_desc_wc srv (isbn # rest) lg = (Inl IndexError, lg @ [url @ isbn])"
    if "data = JDict kvs" "map_of kvs (str_of ''items'') = Some (JList [])" for kvs
    using that raises [of IndexError] by (simp add: empty_items_IndexError)
  with raises show ?thesis by blast
qed

theorem fallback_catches_only_KeyError_witness:
  "books (url @ isbn4) = Inr (Response (Some empty_items)) \<and>
   empty_items = JDict [(str_of ''kind'', JStr (str_of ''books#volumes'')),
                        (str_of ''totalItems'', JInt 0), (str_of ''items'', JList [])] \<and>
   get_desc_wc_parallel books isbn4 [] = (Inl IndexError, [url @ isbn4]) \<and>
   get_desc_wc books [isbn4, isbn1] [] = (Inl IndexError, [url @ isbn4])"
proof -
  have "map_of [(str_of ''kind'', JStr (str_of ''books#volumes'')),
                (str_of ''totalItems'', JInt 0), (str_of ''items'', JList [])] (str_of ''items'')
          = Some (JList [])"
    by (simp add: str_of_eq)
  then show ?thesis
    using fallback_catches_only_KeyError [of books isbn4 empty_items "[]" "[isbn1]"]
    by (simp add: books_at empty_items_def)
qed



subsection \<open>The list function\<close>










text \<open>
  C10. Whenever \<open>get_desc_wc\<close> returns a list, every element of it is a nonnegative
  integer: it is zero, or the length of the list that splitting the description string
  of that ISBN's response on whitespace gives.
\<close>

theorem get_desc_wc_nonneg:
  assumes "fst (get_desc_wc srv isbn_list lg) = Inr wc_list"
  shows "(\<forall>w\<in>set wc_list. 0 \<le> w) \<and>
         (\<forall>k<length wc_list.
            wc_list ! k = 0 \<or>
            (\<exists>data s. srv (url @ isbn_list ! k) = Inr (Response (Some data)) \<and>
                description_of data = Inr (JStr s) \<and>
                wc_list ! k = int (length (str_split s))))"
proof -
  from assms have len: "length wc_list = length isbn_list"
    and nth: "\<forall>k<length isbn_list. item_wc srv (isbn_list ! k) = Inr (wc_list ! k)"
    by (simp_all add: get_desc_wc_collect collect_values_nth)
  have "0 \<le> w" if "w \<in> set wc_list" for w
  proof -
    from that obtain k where "k < length wc_list" "w = wc_list ! k"
      by (auto simp: in_set_conv_nth)
    with len nth have "wc_of_response (srv (url @ isbn_list ! k)) = Inr w"
      by (simp add: item_wc_def)
    then show ?thesis by (rule wc_of_response_nonneg)
  qed
  moreover have "wc_list ! k = 0 \<or>
            (\<exists>data s. srv (url @ isbn_list ! k) = Inr (Response (Some data)) \<and>
                description_of data = Inr (JStr s) \<and>
                wc_list ! k = int (length (str_split s)))" if "k < length wc_list" for k
  proof -
    from that len nth have "wc_of_response (srv (url @ isbn_list ! k)) = Inr (wc_list ! k)"
      by (simp add: item_wc_def)
    then show ?thesis by (rule wc_of_response_Inr)
  qed
  ultimately show ?thesis by blast
qed

theorem get_desc_wc_nonneg_witness:
  "fst (get_desc_wc books [isbn2, isbn1] []) = Inr [0, 4] \<and> list_all (\<lambda>w. 0 \<le> w) [0, 4 :: int]"
proof -
  have ret: "fst (get_desc_wc books [isbn2, isbn1] []) = Inr [0, 4]"
    by (simp add: get_desc_wc_collect item_wc_books)
  from get_desc_wc_nonneg [OF ret] have "\<forall>w\<in>set [0, 4 :: int]. 0 \<le> w" by (rule conjunct1)
  then have "list_all (\<lambda>w. 0 \<le> w) [0, 4 :: int]" by (simp only: list_all_iff)
  with ret show ?thesis by (rule conjI)
qed

text \<open>
  C4. For every list of ISBNs and every fixed assignment of responses to URLs,
  \<open>get_desc_wc\<close> on the list gives what applying \<open>get_desc_wc_parallel\<close> to the list
  element by element gives: the same list of word counts, or the same first exception,
  after the same requests.
\<close>

theorem get_desc_wc_eq_map_parallel:
  "get_desc_wc srv isbn_list lg = map_get_desc_wc_parallel srv isbn_list lg"
  by (simp only: get_desc_wc_collect map_parallel_collect)

subsection \<open>The ISBN file and the batches\<close>

text \<open>
  C7. Reading \<open>isbn.txt\<close> gives one identifier per line of the file, in file order: the
  list has as many entries as the file has lines, and the k-th entry is the k-th line
  stripped of leading and trailing whitespace, the newline included: the line is the
  entry between two runs of whitespace, and a non-empty entry neither begins nor ends
  with whitespace. The lines are the pieces of the text, each non-empty, with a newline
  nowhere but at its end, and every line but the last ends with one.
\<close>

theorem load_isbn_list_lines:
  assumes "fs (str_of ''isbn.txt'') = Some text"
  shows "\<exists>isbn_list.
           load_isbn_list fs = Inr isbn_list \<and>
           length isbn_list = length (file_lines text) \<and>
           (\<forall>k<length isbn_list.
              isbn_list ! k = str_strip (file_lines text ! k) \<and>
              (\<exists>a b. file_lines text ! k = a @ isbn_list ! k @ b \<and>
                     (\<forall>c\<in>set a. isspace c) \<and> (\<forall>c\<in>set b. isspace c)) \<and>
              (isbn_list ! k \<noteq> [] \<longrightarrow>
                 \<not> isspace (hd (isbn_list ! k)) \<and> \<not> isspace (last (isbn_list ! k)))) \<and>
           concat (file_lines text) = universal_newlines False text \<and>
           (\<forall>l\<in>set (file_lines text). l \<noteq> [] \<and> 10 \<notin> set (butlast l)) \<and>
           (\<forall>l\<in>set (butlast (file_lines text)). last l = 10)"
proof -
  let ?ids = "map str_strip (file_lines text)"
  have 1: "load_isbn_list fs = Inr ?ids" using assms by (simp add: load_isbn_list_def)
  have 2: "length ?ids = length (file_lines text)" by simp
  have 3: "?ids ! k = str_strip (file_lines text ! k) \<and>
              (\<exists>a b. file_lines text ! k = a @ ?ids ! k @ b \<and>
                     (\<forall>c\<in>set a. isspace c) \<and> (\<forall>c\<in>set b. isspace c)) \<and>
              (?ids ! k \<noteq> [] \<longrightarrow> \<not> isspace (hd (?ids ! k)) \<and> \<not> isspace (last (?ids ! k)))"
    if "k < length ?ids" for k
    using that str_strip_parts [of "file_lines text ! k"] str_strip_ends [of "file_lines text ! k"]
    by simp
  have 4: "concat (file_lines text) = universal_newlines False text"
    by (simp add: file_lines_def concat_iter_lines)
  have 5: "\<forall>l\<in>set (file_lines text). l \<noteq> [] \<and> 10 \<notin> set (butlast l)"
    using iter_lines_nonempty iter_lines_inner by (auto simp: file_lines_def)
  have 6: "\<forall>l\<in>set (butlast (file_lines text)). last l = 10"
    using iter_lines_ended by (auto simp: file_lines_def)
  from 1 2 3 4 5 6 show ?thesis by blast
qed

theorem load_isbn_list_lines_witness:
  "disk (str_of ''isbn.txt'') = Some isbn_txt \<and>
   load_isbn_list disk = Inr [isbn1, isbn2, [], isbn4]"
proof -
  from load_isbn_list_lines [of disk isbn_txt, OF disk_isbn_txt] obtain ids where
    ids: "load_isbn_list disk = Inr ids" "length ids = length (file_lines isbn_txt)"
      "\<forall>k<length ids. ids ! k = str_strip (file_lines isbn_txt ! k)"
    by (elim exE conjE) (rule that, assumption, assumption, blast)
  from ids(2) have len: "length ids = 4" by (simp add: file_lines_isbn_txt)
  have nths: "ids ! 0 = isbn1" "ids ! 1 = isbn2" "ids ! 2 = []" "ids ! 3 = isbn4"
    using ids(3) len by (simp_all add: file_lines_isbn_txt str_strip_isbn_txt)
  have "ids = map ((!) ids) [0..<length ids]" by (simp only: map_nth)
  also have "\<dots> = [isbn1, isbn2, [], isbn4]" by (simp only: len upt_0_4 list.map nths)
  finally show ?thesis using ids(1) disk_isbn_txt by simp
qed

text \<open>
  C9. For every list and every batch size \<open>n > 0\<close>, the batching expression yields
  consecutive chunks whose concatenation, in order, is the list; every chunk but the
  last has exactly \<open>n\<close> elements, and the last has between 1 and \<open>n\<close>.
\<close>

theorem isbn_batches_partition:
  assumes "0 < n"
  shows "\<exists>batches. isbn_batches n isbn_list = Inr batches \<and> concat batches = isbn_list \<and>
          (\<forall>k. Suc k < length batches \<longrightarrow> length (batches ! k) = nat n) \<and>
          (batches \<noteq> [] \<longrightarrow> 1 \<le> length (last batches) \<and> length (last batches) \<le> nat n)"
proof -
  let ?bs = "map (\<lambda>j. py_slice isbn_list j (j + n)) (range_up 0 (int (length isbn_list)) n)"
  have 1: "isbn_batches n isbn_list = Inr ?bs"
    using assms by (simp add: isbn_batches_def py_range_def)
  have 2: "concat ?bs = isbn_list" using chunks_concat [OF assms, of 0 isbn_list] by simp
  have 3: "\<forall>k. Suc k < length ?bs \<longrightarrow> length (?bs ! k) = nat n"
    using chunks_full [OF assms _ refl, of 0 _ isbn_list] by blast
  have 4: "?bs \<noteq> [] \<longrightarrow> 1 \<le> length (last ?bs) \<and> length (last ?bs) \<le> nat n"
    using chunks_last [OF assms _ refl, of 0 isbn_list] by blast
  from 1 2 3 4 show ?thesis by blast
qed

theorem isbn_batches_partition_witness:
  "(0 :: int) < 2 \<and>
   (\<exists>batches. isbn_batches 2 [isbn1, isbn2, isbn3] = Inr batches \<and>
      concat batches = [isbn1, isbn2, isbn3] \<and>
      (\<forall>k. Suc k < length batches \<longrightarrow> length (batches ! k) = 2) \<and>
      (batches \<noteq> [] \<longrightarrow> 1 \<le> length (last batches) \<and> length (last batches) \<le> 2))"
  using isbn_batches_partition [of 2 "[isbn1, isbn2, isbn3]"] by simp

end
